theory Spec2Isabelle
  imports Complex_Main "HOL-Library.Word" "HOL-Library.Sublist"
begin

section \<open>Single-precision arithmetic\<close>

text \<open>
  The C type \<^verbatim>\<open>float\<close> is IEEE 754 binary32: 24 significant bits, exponents from
  -126 to 127, every operation rounded to the nearest representable value with ties to the
  even significand (the default rounding mode; expressions are evaluated in \<^verbatim>\<open>float\<close>
  itself, since every operand of the program is a \<^verbatim>\<open>float\<close> or an integer converted to
  one). A finite value is the rational number it denotes; the two zeros are not told
  apart (they compare equal in C, and the program never divides by a computed value).
\<close>

datatype f32 = Finite rat | Inf bool | NaN

definition pow2 :: "int \<Rightarrow> rat" where
  "pow2 e = (if 0 \<le> e then 2 ^ nat e else 1 / 2 ^ nat (- e))"

text \<open>The number of binary digits of a positive integer (0 for the others).\<close>

function bit_length :: "int \<Rightarrow> nat" where
  "bit_length n = (if n \<le> 0 then 0 else Suc (bit_length (n div 2)))"
  by pat_completeness auto
termination
  by (relation "measure nat") auto

declare bit_length.simps [simp del]

text \<open>
  The binary exponent of a non-zero rational: \<open>expo x = e\<close> with \<open>2^e \<le> |x| < 2^(e+1)\<close>.
  For \<open>|x| = p / q\<close> in lowest terms, the difference \<open>d\<close> of the lengths of \<open>p\<close> and \<open>q\<close>
  gives \<open>2^(d-1) < |x| < 2^(d+1)\<close>, and one comparison decides between \<open>d - 1\<close> and \<open>d\<close>.
\<close>

definition expo :: "rat \<Rightarrow> int" where
  "expo x =
     (let (p, q) = quotient_of \<bar>x\<bar>;
          d = int (bit_length p) - int (bit_length q)
      in if pow2 d \<le> \<bar>x\<bar> then d else d - 1)"

text \<open>The spacing of binary32 values around \<open>x\<close>; below \<open>2^-126\<close> (subnormals) it is \<open>2^-149\<close>.\<close>

definition ulp :: "rat \<Rightarrow> rat" where
  "ulp x = pow2 (max (expo x) (- 126) - 23)"

text \<open>Rounding a rational to the nearest integer, ties to even.\<close>

definition round_half_even :: "rat \<Rightarrow> int" where
  "round_half_even q =
     (let f = \<lfloor>q\<rfloor>; d = q - of_int f
      in if d < 1 / 2 then f
         else if 1 / 2 < d then f + 1
         else if even f then f else f + 1)"

text \<open>
  The largest finite binary32 value, \<^verbatim>\<open>FLT_MAX\<close> = \<open>(2^24 - 1) * 2^104\<close>. Rounding to binary32
  rounds to a multiple of the spacing; a result beyond \<^verbatim>\<open>FLT_MAX\<close> has no finite
  representation and becomes an infinity.
\<close>

definition FLT_MAX :: rat where
  "FLT_MAX = 340282346638528859811704183484516925440"

definition round_f32 :: "rat \<Rightarrow> f32" where
  "round_f32 x =
     (let u = ulp x; y = of_int (round_half_even (x / u)) * u
      in if FLT_MAX < \<bar>y\<bar> then Inf (y < 0) else Finite y)"

fun fneg :: "f32 \<Rightarrow> f32" where
  "fneg (Finite x) = Finite (- x)"
| "fneg (Inf s) = Inf (\<not> s)"
| "fneg NaN = NaN"

fun fadd :: "f32 \<Rightarrow> f32 \<Rightarrow> f32" where
  "fadd (Finite x) (Finite y) = round_f32 (x + y)"
| "fadd NaN _ = NaN"
| "fadd _ NaN = NaN"
| "fadd (Inf s) (Inf t) = (if s = t then Inf s else NaN)"
| "fadd (Inf s) (Finite _) = Inf s"
| "fadd (Finite _) (Inf t) = Inf t"

definition fsub :: "f32 \<Rightarrow> f32 \<Rightarrow> f32" where
  "fsub a b = fadd a (fneg b)"

fun fmul :: "f32 \<Rightarrow> f32 \<Rightarrow> f32" where
  "fmul (Finite x) (Finite y) = round_f32 (x * y)"
| "fmul NaN _ = NaN"
| "fmul _ NaN = NaN"
| "fmul (Inf s) (Inf t) = Inf (s \<noteq> t)"
| "fmul (Inf s) (Finite y) = (if y = 0 then NaN else Inf (s \<noteq> (y < 0)))"
| "fmul (Finite x) (Inf t) = (if x = 0 then NaN else Inf ((x < 0) \<noteq> t))"

fun fdiv :: "f32 \<Rightarrow> f32 \<Rightarrow> f32" where
  "fdiv (Finite x) (Finite y) =
     (if y = 0 then (if x = 0 then NaN else Inf (x < 0)) else round_f32 (x / y))"
| "fdiv NaN _ = NaN"
| "fdiv _ NaN = NaN"
| "fdiv (Inf s) (Inf t) = NaN"
| "fdiv (Inf s) (Finite y) = Inf (s \<noteq> (y < 0))"
| "fdiv (Finite x) (Inf t) = Finite 0"

text \<open>A decimal literal with suffix \<^verbatim>\<open>f\<close>, and the conversion of an integer to \<^verbatim>\<open>float\<close>.\<close>

definition f32_lit :: "rat \<Rightarrow> f32" where
  "f32_lit q = round_f32 q"

definition int_to_f32 :: "int \<Rightarrow> f32" where
  "int_to_f32 i = round_f32 (of_int i)"

section \<open>The sample converter\<close>

text \<open>
  \<^verbatim>\<open>float convert_to_celsius(uint16_t raw)\<close>: \<^verbatim>\<open>raw\<close> is promoted to \<^verbatim>\<open>int\<close> and converted
  to \<^verbatim>\<open>float\<close> for the product; \<^verbatim>\<open>(1 << 12)\<close> is the \<^verbatim>\<open>int\<close> 4096.
\<close>

definition conversion_factor :: f32 where
  "conversion_factor = fdiv (f32_lit (33 / 10)) (int_to_f32 (push_bit 12 1))"

definition convert_to_celsius :: "16 word \<Rightarrow> f32" where
  "convert_to_celsius raw =
     (let voltage = fmul (int_to_f32 (uint raw)) conversion_factor
      in fsub (f32_lit 27)
              (fdiv (fsub voltage (f32_lit (706 / 1000))) (f32_lit (1721 / 1000000))))"

text \<open>
  The formula of the specification, in exact rational arithmetic:
  voltage = raw * (3.3 / 4096), temperature = 27.0 - (voltage - 0.706) / 0.001721.
\<close>

definition celsius_exact :: "rat \<Rightarrow> rat" where
  "celsius_exact raw = 27 - (raw * (33 / 10 / 4096) - 706 / 1000) / (1721 / 1000000)"

text \<open>The comparison \<^verbatim>\<open><\<close> of two \<^verbatim>\<open>float\<close>s; a NaN compares false with everything.\<close>

fun f32_less :: "f32 \<Rightarrow> f32 \<Rightarrow> bool" where
  "f32_less (Finite x) (Finite y) = (x < y)"
| "f32_less NaN _ = False"
| "f32_less _ NaN = False"
| "f32_less (Inf s) (Inf t) = (s \<and> \<not> t)"
| "f32_less (Inf s) (Finite _) = s"
| "f32_less (Finite _) (Inf t) = (\<not> t)"

section \<open>The averaging fold\<close>

definition NUM_SAMPLES :: nat where
  "NUM_SAMPLES = 100"

definition UPDATE_INTERVAL_MS :: int where
  "UPDATE_INTERVAL_MS = 500"

text \<open>
  Lines 133 to 137 of \<^verbatim>\<open>main\<close>, as a function of the contents of \<^verbatim>\<open>adc_buffer\<close>:
  \<^verbatim>\<open>for (int i = 0; i < NUM_SAMPLES; i++) sum += convert_to_celsius(adc_buffer[i]);\<close>
  The array has exactly \<^verbatim>\<open>NUM_SAMPLES\<close> elements, so every index read is in range for a
  list of that length. The divisor \<^verbatim>\<open>NUM_SAMPLES\<close> is an \<^verbatim>\<open>int\<close> converted to \<^verbatim>\<open>float\<close>.
\<close>

function sum_loop :: "16 word list \<Rightarrow> nat \<Rightarrow> f32 \<Rightarrow> f32" where
  "sum_loop buf i acc =
     (if i < NUM_SAMPLES
      then sum_loop buf (i + 1) (fadd acc (convert_to_celsius (buf ! i)))
      else acc)"
  by pat_completeness auto
termination
  by (relation "measure (\<lambda>(buf, i, acc). NUM_SAMPLES - i)") auto

declare sum_loop.simps [simp del]

definition average_temperature :: "16 word list \<Rightarrow> f32" where
  "average_temperature buf =
     fdiv (sum_loop buf 0 (f32_lit 0)) (int_to_f32 (int NUM_SAMPLES))"

section \<open>The main loop and its environment\<close>

text \<open>
  The ADC, the DMA controller and the timer are driven through the Pico SDK. The model
  records each call of the loop body with its arguments, in order, and each read of
  \<^verbatim>\<open>adc_buffer\<close>; of the hardware it keeps only what the loop can observe: the number of
  transfers left in the armed burst, and whether the repeating timer is still armed.
\<close>

datatype dma_size = DMA_SIZE_8 | DMA_SIZE_16 | DMA_SIZE_32

datatype dreq = DREQ_ADC | DREQ_OTHER nat

record dma_channel_config =
  transfer_data_size :: dma_size
  read_increment :: bool
  write_increment :: bool
  dreq :: dreq

definition channel_config_set_transfer_data_size ::
  "dma_channel_config \<Rightarrow> dma_size \<Rightarrow> dma_channel_config" where
  "channel_config_set_transfer_data_size c sz = c\<lparr>transfer_data_size := sz\<rparr>"

definition channel_config_set_read_increment ::
  "dma_channel_config \<Rightarrow> bool \<Rightarrow> dma_channel_config" where
  "channel_config_set_read_increment c incr = c\<lparr>read_increment := incr\<rparr>"

definition channel_config_set_write_increment ::
  "dma_channel_config \<Rightarrow> bool \<Rightarrow> dma_channel_config" where
  "channel_config_set_write_increment c incr = c\<lparr>write_increment := incr\<rparr>"

definition channel_config_set_dreq :: "dma_channel_config \<Rightarrow> dreq \<Rightarrow> dma_channel_config" where
  "channel_config_set_dreq c d = c\<lparr>dreq := d\<rparr>"

text \<open>The two addresses handed to the DMA: \<^verbatim>\<open>adc_buffer\<close> and \<^verbatim>\<open>&adc_hw->fifo\<close>.\<close>

datatype addr = Addr_adc_buffer | Addr_adc_hw_fifo

text \<open>
  \<^verbatim>\<open>adc_fifo_setup(en, dreq_en, dreq_thresh, err_in_fifo, byte_shift)\<close> and
  \<^verbatim>\<open>dma_channel_configure(channel, config, write_addr, read_addr, transfer_count, trigger)\<close>
  keep the order of their parameters. \<open>Dma_channel_wait_for_finish_blocking\<close> is recorded
  when the call returns.
\<close>

datatype event =
    Adc_fifo_drain
  | Adc_run bool
  | Adc_fifo_setup bool bool nat bool bool
  | Dma_channel_configure nat dma_channel_config addr addr nat bool
  | Dma_channel_wait_for_finish_blocking nat
  | Read_adc_buffer nat
  | Printf f32
  | Display_temperature f32

text \<open>The statement of the loop body (lines 103 to 142) that the main program runs next.\<close>

datatype pc =
    At_while_timer_fired
  | At_wfi
  | At_clear_timer_fired
  | At_adc_fifo_drain
  | At_adc_run_false
  | At_adc_fifo_setup
  | At_adc_run_true
  | At_dma_channel_configure
  | At_dma_wait
  | At_adc_run_false_after
  | At_sum_init
  | At_for
  | At_avg_temp
  | At_printf
  | At_display_temperature

record state =
  pc :: pc
  timer_fired :: bool
  adc_buffer :: "16 word list"
  dma_chan :: nat
  cfg :: dma_channel_config
  i_loc :: nat
  sum_loc :: f32
  avg_temp :: f32
  trace :: "event list"
  transfers_left :: nat
  timer_armed :: bool
  timer_delay_ms :: int

text \<open>
  \<^verbatim>\<open>bool alarm_callback(repeating_timer_t *rt)\<close>: the returned flag tells the timer whether
  to fire again.
\<close>

definition alarm_callback :: "state \<Rightarrow> bool \<times> state" where
  "alarm_callback s = (True, s\<lparr>timer_fired := True\<rparr>)"

definition emit :: "event \<Rightarrow> state \<Rightarrow> state" where
  "emit e s = s\<lparr>trace := trace s @ [e]\<rparr>"

text \<open>
  The part of \<^verbatim>\<open>main\<close> before the loop, as far as the loop depends on it: the channel
  number returned by \<^verbatim>\<open>dma_claim_unused_channel\<close> and the configuration returned by
  \<^verbatim>\<open>dma_channel_get_default_config\<close> are parameters; the four setters change the
  configuration; \<^verbatim>\<open>add_repeating_timer_ms(UPDATE_INTERVAL_MS, alarm_callback, NULL, &timer)\<close>
  arms the timer. The global \<^verbatim>\<open>adc_buffer\<close> starts zeroed, the flag \<^verbatim>\<open>false\<close>.
\<close>

definition main_init :: "nat \<Rightarrow> dma_channel_config \<Rightarrow> state" where
  "main_init chan default_config =
     \<lparr>pc = At_while_timer_fired,
      timer_fired = False,
      adc_buffer = replicate NUM_SAMPLES 0,
      dma_chan = chan,
      cfg = channel_config_set_dreq
              (channel_config_set_write_increment
                (channel_config_set_read_increment
                  (channel_config_set_transfer_data_size default_config DMA_SIZE_16)
                  False)
                True)
              DREQ_ADC,
      i_loc = 0,
      sum_loc = Finite 0,
      avg_temp = Finite 0,
      trace = [],
      transfers_left = 0,
      timer_armed = True,
      timer_delay_ms = UPDATE_INTERVAL_MS\<rparr>"

text \<open>
  One statement of the loop body. \<^verbatim>\<open>__wfi()\<close> sleeps until an interrupt arrives, and
  \<^verbatim>\<open>dma_channel_wait_for_finish_blocking\<close> returns only once the burst is complete: a
  step of the main program in either place, while the condition is not met, changes
  nothing.
\<close>

definition main_step :: "state \<Rightarrow> state" where
  "main_step s =
     (case pc s of
        At_while_timer_fired \<Rightarrow>
          if timer_fired s then s\<lparr>pc := At_clear_timer_fired\<rparr> else s\<lparr>pc := At_wfi\<rparr>
      | At_wfi \<Rightarrow> s
      | At_clear_timer_fired \<Rightarrow> s\<lparr>timer_fired := False, pc := At_adc_fifo_drain\<rparr>
      | At_adc_fifo_drain \<Rightarrow> (emit Adc_fifo_drain s)\<lparr>pc := At_adc_run_false\<rparr>
      | At_adc_run_false \<Rightarrow> (emit (Adc_run False) s)\<lparr>pc := At_adc_fifo_setup\<rparr>
      | At_adc_fifo_setup \<Rightarrow>
          (emit (Adc_fifo_setup True True 1 False False) s)\<lparr>pc := At_adc_run_true\<rparr>
      | At_adc_run_true \<Rightarrow> (emit (Adc_run True) s)\<lparr>pc := At_dma_channel_configure\<rparr>
      | At_dma_channel_configure \<Rightarrow>
          (emit (Dma_channel_configure (dma_chan s) (cfg s) Addr_adc_buffer Addr_adc_hw_fifo
                   NUM_SAMPLES True) s)
            \<lparr>transfers_left := NUM_SAMPLES, pc := At_dma_wait\<rparr>
      | At_dma_wait \<Rightarrow>
          if transfers_left s = 0
          then (emit (Dma_channel_wait_for_finish_blocking (dma_chan s)) s)
                 \<lparr>pc := At_adc_run_false_after\<rparr>
          else s
      | At_adc_run_false_after \<Rightarrow> (emit (Adc_run False) s)\<lparr>pc := At_sum_init\<rparr>
      | At_sum_init \<Rightarrow> s\<lparr>sum_loc := f32_lit 0, i_loc := 0, pc := At_for\<rparr>
      | At_for \<Rightarrow>
          if i_loc s < NUM_SAMPLES
          then (emit (Read_adc_buffer (i_loc s)) s)
                 \<lparr>sum_loc := fadd (sum_loc s) (convert_to_celsius (adc_buffer s ! i_loc s)),
                  i_loc := i_loc s + 1\<rparr>
          else s\<lparr>pc := At_avg_temp\<rparr>
      | At_avg_temp \<Rightarrow>
          s\<lparr>avg_temp := fdiv (sum_loc s) (int_to_f32 (int NUM_SAMPLES)), pc := At_printf\<rparr>
      | At_printf \<Rightarrow> (emit (Printf (avg_temp s)) s)\<lparr>pc := At_display_temperature\<rparr>
      | At_display_temperature \<Rightarrow>
          (emit (Display_temperature (avg_temp s)) s)\<lparr>pc := At_while_timer_fired\<rparr>)"

text \<open>An interrupt ends the sleep of \<^verbatim>\<open>__wfi()\<close>; the loop then tests the flag again.\<close>

definition wake :: "state \<Rightarrow> state" where
  "wake s = (if pc s = At_wfi then s\<lparr>pc := At_while_timer_fired\<rparr> else s)"

text \<open>
  The timer interrupt runs \<^verbatim>\<open>alarm_callback\<close> while the timer is armed, and keeps it
  armed if the callback returns true.
\<close>

definition timer_tick :: "state \<Rightarrow> state" where
  "timer_tick s =
     (if timer_armed s
      then (let (again, s') = alarm_callback s in wake (s'\<lparr>timer_armed := again\<rparr>))
      else s)"

text \<open>
  One transfer of the armed burst: the DMA moves a 16-bit sample from the ADC FIFO to the
  next element of \<^verbatim>\<open>adc_buffer\<close> (the write address increments, the read address does
  not). Outside a burst the DMA does nothing.
\<close>

definition dma_transfer :: "16 word \<Rightarrow> state \<Rightarrow> state" where
  "dma_transfer w s =
     (if 0 < transfers_left s
      then s\<lparr>adc_buffer := (adc_buffer s)[NUM_SAMPLES - transfers_left s := w],
             transfers_left := transfers_left s - 1\<rparr>
      else s)"

text \<open>
  What can happen next: a statement of the main program, a timer interrupt, another
  interrupt, or a DMA transfer of a sample. A schedule is any list of these.
\<close>

datatype action = Main | Tick | Irq | Dma "16 word"

fun exec :: "action \<Rightarrow> state \<Rightarrow> state" where
  "exec Main s = main_step s"
| "exec Tick s = timer_tick s"
| "exec Irq s = wake s"
| "exec (Dma w) s = dma_transfer w s"

fun run :: "action list \<Rightarrow> state \<Rightarrow> state" where
  "run [] s = s"
| "run (a # as) s = run as (exec a s)"

text \<open>
  The calls and buffer reads of one acquisition cycle, in the order of the specification:
  drain, stop, FIFO setup, start, arm the burst, wait for its completion, stop, then the
  reads of the buffer, then the two outputs of the average.
\<close>

definition cycle_events :: "nat \<Rightarrow> dma_channel_config \<Rightarrow> f32 \<Rightarrow> event list" where
  "cycle_events chan c avg =
     [Adc_fifo_drain, Adc_run False, Adc_fifo_setup True True 1 False False, Adc_run True,
      Dma_channel_configure chan c Addr_adc_buffer Addr_adc_hw_fifo NUM_SAMPLES True,
      Dma_channel_wait_for_finish_blocking chan, Adc_run False]
     @ map Read_adc_buffer [0..<NUM_SAMPLES]
     @ [Printf avg, Display_temperature avg]"

text \<open>The states of the main loop in the specification, and the transitions into Sampling.\<close>

datatype phase = Idle | Sampling | Presenting

fun phase_of :: "pc \<Rightarrow> phase" where
  "phase_of At_while_timer_fired = Idle"
| "phase_of At_wfi = Idle"
| "phase_of At_clear_timer_fired = Idle"
| "phase_of At_printf = Presenting"
| "phase_of At_display_temperature = Presenting"
| "phase_of _ = Sampling"

fun sampling_transitions :: "action list \<Rightarrow> state \<Rightarrow> nat" where
  "sampling_transitions [] s = 0"
| "sampling_transitions (a # as) s =
     (if phase_of (pc s) = Idle \<and> phase_of (pc (exec a s)) = Sampling then 1 else 0)
     + sampling_transitions as (exec a s)"

section \<open>Invariants of the main loop\<close>

text \<open>
  How many events of the current cycle are already recorded when the main program is
  about to run a statement (\<open>i\<close> is the loop counter of the fold).
\<close>

fun cycle_position :: "pc \<Rightarrow> nat \<Rightarrow> nat" where
  "cycle_position At_adc_run_false i = 1"
| "cycle_position At_adc_fifo_setup i = 2"
| "cycle_position At_adc_run_true i = 3"
| "cycle_position At_dma_channel_configure i = 4"
| "cycle_position At_dma_wait i = 5"
| "cycle_position At_adc_run_false_after i = 6"
| "cycle_position At_sum_init i = 7"
| "cycle_position At_for i = 7 + i"
| "cycle_position At_avg_temp i = 7 + NUM_SAMPLES"
| "cycle_position At_printf i = 7 + NUM_SAMPLES"
| "cycle_position At_display_temperature i = 8 + NUM_SAMPLES"
| "cycle_position _ i = 0"

text \<open>The trace is a sequence of whole cycles followed by the recorded part of the current one.\<close>

definition trace_inv :: "state \<Rightarrow> bool" where
  "trace_inv s \<longleftrightarrow>
     (\<exists>avgs. trace s =
        concat (map (cycle_events (dma_chan s) (cfg s)) avgs)
        @ take (cycle_position (pc s) (i_loc s)) (cycle_events (dma_chan s) (cfg s) (avg_temp s)))
     \<and> (pc s = At_for \<longrightarrow> i_loc s \<le> NUM_SAMPLES)"

text \<open>
  A burst is in flight only while the main program waits for it; the fold runs on a
  buffer of \<^verbatim>\<open>NUM_SAMPLES\<close> elements that no longer changes, and what it has accumulated
  so far determines the average that is reported.
\<close>

definition buffer_inv :: "state \<Rightarrow> bool" where
  "buffer_inv s \<longleftrightarrow>
     length (adc_buffer s) = NUM_SAMPLES
     \<and> (transfers_left s = 0 \<or> pc s = At_dma_wait)
     \<and> (pc s = At_for \<longrightarrow>
           sum_loop (adc_buffer s) (i_loc s) (sum_loc s) = sum_loop (adc_buffer s) 0 (f32_lit 0))
     \<and> (pc s = At_avg_temp \<longrightarrow> sum_loc s = sum_loop (adc_buffer s) 0 (f32_lit 0))
     \<and> (pc s = At_printf \<or> pc s = At_display_temperature \<longrightarrow>
           avg_temp s = average_temperature (adc_buffer s))"

section \<open>Properties of the rounding\<close>

lemma pow2_powi: "pow2 e = 2 powi e"
  by (simp add: pow2_def power_int_def inverse_eq_divide power_one_over)

lemma pow2_pos: "0 < pow2 e"
  by (simp add: pow2_powi)

lemma pow2_add: "pow2 (a + b) = pow2 a * pow2 b"
  by (simp add: pow2_powi power_int_add)

lemma pow2_mono: "a \<le> b \<Longrightarrow> pow2 a \<le> pow2 b"
  by (simp add: pow2_powi power_int_increasing)

lemma pow2_strict_mono: "a < b \<Longrightarrow> pow2 a < pow2 b"
  by (simp add: pow2_powi power_int_strict_increasing)

lemma pow2_less_iff: "pow2 a < pow2 b \<longleftrightarrow> a < b"
  using pow2_mono [of b a] pow2_strict_mono [of a b] by (cases "a < b") auto

lemma pow2_le_iff: "pow2 a \<le> pow2 b \<longleftrightarrow> a \<le> b"
  using pow2_mono [of a b] pow2_strict_mono [of b a] by (cases "a \<le> b") auto

lemma pow2_nat: "pow2 (int n) = 2 ^ n"
  by (simp add: pow2_def)

lemma pow2_diff: "pow2 (a - b) = pow2 a / pow2 b"
  by (simp add: pow2_powi power_int_diff)

lemma bit_length_pos: "0 < n \<Longrightarrow> bit_length n = Suc (bit_length (n div 2))"
  by (subst bit_length.simps) simp

lemma bit_length_nonpos: "n \<le> 0 \<Longrightarrow> bit_length n = 0"
  by (subst bit_length.simps) simp

lemma bit_length_bounds:
  "0 < n \<Longrightarrow> 2 ^ (bit_length n - 1) \<le> n \<and> n < 2 ^ bit_length n"
proof (induction n rule: bit_length.induct)
  case (1 n)
  show ?case
  proof (cases "n = 1")
    case True
    then show ?thesis by (simp add: bit_length_pos bit_length_nonpos)
  next
    case False
    with "1.prems" have h: "0 < n div 2" by simp
    with "1.IH" "1.prems" have IH: "2 ^ (bit_length (n div 2) - 1) \<le> n div 2" "n div 2 < 2 ^ bit_length (n div 2)"
      by simp_all
    from h have pos: "0 < bit_length (n div 2)" by (simp add: bit_length_pos)
    have eq: "bit_length n = Suc (bit_length (n div 2))" using "1.prems" by (rule bit_length_pos)
    have "2 ^ (bit_length n - 1) = (2::int) ^ bit_length (n div 2)" using eq by simp
    also have "\<dots> = 2 * 2 ^ (bit_length (n div 2) - 1)" using pos
      by (metis power_eq_if not_gr_zero)
    also have "\<dots> \<le> 2 * (n div 2)" using IH(1) by simp
    also have "\<dots> \<le> n" by simp
    finally have lo: "2 ^ (bit_length n - 1) \<le> n" .
    have "n < 2 * (n div 2) + 2" by presburger
    also have "\<dots> \<le> 2 * 2 ^ bit_length (n div 2)" using IH(2) by simp
    finally have hi: "n < 2 ^ bit_length n" using eq by simp
    from lo hi show ?thesis by simp
  qed
qed


lemma bit_length_pow2:
  assumes "0 < n"
  shows "pow2 (int (bit_length n) - 1) \<le> of_int n" and "of_int n < pow2 (int (bit_length n))"
proof -
  from assms have pos: "0 < bit_length n" by (simp add: bit_length_pos)
  then have e: "int (bit_length n) - 1 = int (bit_length n - 1)" by simp
  from bit_length_bounds [OF assms]
  have "(of_int (2 ^ (bit_length n - 1)) :: rat) \<le> of_int n" and "(of_int n :: rat) < of_int (2 ^ bit_length n)"
    by (simp_all only: of_int_le_iff of_int_less_iff)
  then show "pow2 (int (bit_length n) - 1) \<le> of_int n" and "of_int n < pow2 (int (bit_length n))"
    unfolding e pow2_nat by simp_all
qed

lemma expo_bounds:
  assumes "x \<noteq> 0"
  shows "pow2 (expo x) \<le> \<bar>x\<bar> \<and> \<bar>x\<bar> < pow2 (expo x + 1)"
proof -
  obtain p q where pq: "quotient_of \<bar>x\<bar> = (p, q)" by (cases "quotient_of \<bar>x\<bar>")
  then have q: "0 < q" and x: "\<bar>x\<bar> = of_int p / of_int q"
    by (auto dest: quotient_of_denom_pos quotient_of_div)
  from assms have "0 < \<bar>x\<bar>" by simp
  with x q have p: "0 < p" by (simp add: zero_less_divide_iff)
  define d where "d = int (bit_length p) - int (bit_length q)"
  note P = bit_length_pow2 [OF p] and Q = bit_length_pow2 [OF q]
  have qq: "(0::rat) < of_int q" and pp: "(0::rat) < of_int p" using p q by simp_all
  have "d - 1 = (int (bit_length p) - 1) - int (bit_length q)"
    and "d + 1 = int (bit_length p) - (int (bit_length q) - 1)"
    by (simp_all add: d_def)
  then have d1: "pow2 (d - 1) = pow2 (int (bit_length p) - 1) / pow2 (int (bit_length q))"
    and d2: "pow2 (d + 1) = pow2 (int (bit_length p)) / pow2 (int (bit_length q) - 1)"
    by (simp_all only: pow2_diff)
  have "pow2 (int (bit_length p) - 1) / pow2 (int (bit_length q)) \<le> of_int p / of_int q"
    using P(1) Q(2) qq pp by (intro frac_le) (simp_all add: pow2_pos less_imp_le)
  then have lo: "pow2 (d - 1) \<le> \<bar>x\<bar>" by (simp only: d1 x)
  have "of_int p / of_int q < pow2 (int (bit_length p)) / pow2 (int (bit_length q) - 1)"
    using P(2) Q(1) pp by (intro frac_less) (simp_all add: pow2_pos less_imp_le)
  also have "\<dots> = pow2 (d + 1)"
    by (simp only: d2)
  finally have hi: "\<bar>x\<bar> < pow2 (d + 1)" by (simp add: x)
  have e: "expo x = (if pow2 d \<le> \<bar>x\<bar> then d else d - 1)"
    by (simp add: expo_def pq d_def Let_def)
  show ?thesis
  proof (cases "pow2 d \<le> \<bar>x\<bar>")
    case True
    with e hi show ?thesis by simp
  next
    case False
    with e lo show ?thesis by simp
  qed
qed

lemma expo_less:
  assumes "x \<noteq> 0" and "\<bar>x\<bar> < pow2 k"
  shows "expo x < k"
proof -
  from expo_bounds [OF assms(1)] assms(2) have "pow2 (expo x) < pow2 k" by simp
  then show ?thesis by (simp add: pow2_less_iff)
qed

lemma expo_ge:
  assumes "pow2 k \<le> \<bar>x\<bar>"
  shows "k \<le> expo x"
proof -
  from assms pow2_pos [of k] have "x \<noteq> 0" by auto
  from expo_bounds [OF this] assms have "pow2 k < pow2 (expo x + 1)" by simp
  then show ?thesis by (simp add: pow2_less_iff)
qed

lemma round_half_even_error: "\<bar>of_int (round_half_even q) - q\<bar> \<le> 1 / 2"
proof -
  have "of_int \<lfloor>q\<rfloor> \<le> q" "q < of_int \<lfloor>q\<rfloor> + 1" by linarith+
  then show ?thesis
    by (auto simp: round_half_even_def Let_def abs_le_iff)
qed

lemma round_half_even_of_int: "round_half_even (of_int n) = n"
  by (simp add: round_half_even_def)

lemma ulp_pos: "0 < ulp x"
  by (simp add: ulp_def pow2_pos)

lemma ulp_le:
  assumes "x \<noteq> 0" and "\<bar>x\<bar> < pow2 k" and "- 125 \<le> k"
  shows "ulp x \<le> pow2 (k - 24)"
proof -
  from expo_less [OF assms(1,2)] assms(3) have "max (expo x) (- 126) - 23 \<le> k - 24" by simp
  then show ?thesis unfolding ulp_def by (rule pow2_mono)
qed

lemma round_f32_zero: "round_f32 0 = Finite 0"
  using round_half_even_of_int [of 0] by (simp add: round_f32_def FLT_MAX_def)

lemma pow2_half: "pow2 (k - 24) / 2 = pow2 (k - 25)"
proof -
  have "pow2 (k - 24) = pow2 (k - 25 + 1)" by simp
  also have "\<dots> = pow2 (k - 25) * 2" unfolding pow2_add by (simp add: pow2_def)
  finally show ?thesis by simp
qed

lemma round_f32_error:
  assumes "\<bar>x\<bar> < pow2 k" and "- 125 \<le> k" and "k \<le> 127"
  shows "\<exists>y. round_f32 x = Finite y \<and> \<bar>y - x\<bar> \<le> pow2 (k - 25)"
proof (cases "x = 0")
  case True
  then show ?thesis using pow2_pos [of "k - 25"] by (simp add: round_f32_zero less_imp_le)
next
  case False
  define u where "u = ulp x"
  define y where "y = of_int (round_half_even (x / u)) * u"
  have u: "0 < u" "u \<le> pow2 (k - 24)"
    using ulp_pos ulp_le [OF False assms(1,2)] by (simp_all add: u_def)
  have "y - x = (of_int (round_half_even (x / u)) - x / u) * u"
    using u(1) by (simp add: y_def field_simps)
  then have "\<bar>y - x\<bar> = \<bar>of_int (round_half_even (x / u)) - x / u\<bar> * u"
    using u(1) by (simp add: abs_mult)
  also have "\<dots> \<le> 1 / 2 * u"
    using round_half_even_error [of "x / u"] u(1) by (intro mult_right_mono) simp_all
  also have "\<dots> \<le> pow2 (k - 24) / 2" using u(2) by simp
  finally have err: "\<bar>y - x\<bar> \<le> pow2 (k - 25)" by (simp only: pow2_half)
  have "pow2 k \<le> pow2 127" and "pow2 (k - 25) \<le> pow2 102"
    using assms(3) by (simp_all add: pow2_le_iff)
  then have "pow2 k \<le> 2 ^ 127" and "pow2 (k - 25) \<le> 2 ^ 102"
    by (simp_all add: pow2_def)
  with err assms(1) have "\<bar>y\<bar> < 2 ^ 127 + 2 ^ 102" by linarith
  then have "\<not> FLT_MAX < \<bar>y\<bar>" by (simp add: FLT_MAX_def)
  then have "round_f32 x = Finite y"
    by (simp add: round_f32_def Let_def u_def y_def)
  with err show ?thesis by blast
qed

lemma round_f32_of_int:
  assumes "0 \<le> i" and "i < 2 ^ 24"
  shows "round_f32 (of_int i) = Finite (of_int i)"
proof (cases "i = 0")
  case True
  then show ?thesis by (simp add: round_f32_zero)
next
  case False
  with assms have i: "1 \<le> i" by simp
  define e where "e = expo (of_int i)"
  have "pow2 0 \<le> \<bar>rat_of_int i\<bar>" using i by (simp add: pow2_def)
  then have e0: "0 \<le> e" unfolding e_def by (rule expo_ge)
  have i24: "rat_of_int i < 2 ^ 24"
    using assms(2) of_int_less_iff [of i "2 ^ 24", where ?'a = rat] by simp
  then have "\<bar>rat_of_int i\<bar> < pow2 24"
    using assms(1) by (simp add: pow2_def)
  with False have e24: "e < 24" unfolding e_def by (intro expo_less) simp_all
  define n where "n = nat (23 - e)"
  have u: "ulp (of_int i) = 1 / 2 ^ n"
  proof -
    have "ulp (of_int i) = pow2 (0 - int n)" using e0 e24 by (simp add: ulp_def e_def n_def)
    also have "\<dots> = 1 / 2 ^ n" unfolding pow2_diff by (simp add: pow2_nat pow2_def)
    finally show ?thesis .
  qed
  have "rat_of_int i / (1 / 2 ^ n) = of_int (i * 2 ^ n)" by simp
  then have r: "round_half_even (of_int i / ulp (of_int i)) = i * 2 ^ n"
    by (simp only: u round_half_even_of_int)
  have "\<not> FLT_MAX < \<bar>rat_of_int i\<bar>"
    using assms(1) i24 by (simp add: FLT_MAX_def)
  then show ?thesis
    by (simp add: round_f32_def Let_def r) (simp add: u)
qed

section \<open>The converter: values of the constants and rounding error\<close>

lemma f32_lit_33_10: "f32_lit (33 / 10) = Finite (13841203 / 4194304)"
  by code_simp

lemma conversion_factor_value: "conversion_factor = Finite (13841203 / 17179869184)"
  by code_simp

lemma f32_lit_27: "f32_lit 27 = Finite 27"
  by code_simp

lemma f32_lit_706: "f32_lit (706 / 1000) = Finite (5922357 / 8388608)"
  by code_simp

lemma f32_lit_1721: "f32_lit (1721 / 1000000) = Finite (14783277 / 8589934592)"
  by code_simp

lemma int_to_f32_100: "int_to_f32 100 = Finite 100"
  by code_simp


lemma fsub_Finite: "fsub (Finite x) (Finite y) = round_f32 (x - y)"
  by (simp add: fsub_def)

lemma fdiv_Finite: "y \<noteq> 0 \<Longrightarrow> fdiv (Finite x) (Finite y) = round_f32 (x / y)"
  by simp

lemma fmul_Finite: "fmul (Finite x) (Finite y) = round_f32 (x * y)"
  by simp

lemma fadd_Finite: "fadd (Finite x) (Finite y) = round_f32 (x + y)"
  by simp

lemma int_to_f32_uint:
  fixes raw :: "16 word"
  shows "int_to_f32 (uint raw) = Finite (of_int (uint raw))"
proof -
  have "uint raw < 2 ^ 24" using uint_bounded [of raw] by simp
  then show ?thesis unfolding int_to_f32_def by (intro round_f32_of_int) simp_all
qed

lemma convert_arith_16:
  fixes x v d q t :: rat
  assumes "0 \<le> x" "x \<le> 65535"
    and "\<bar>v - x * (13841203 / 17179869184)\<bar> \<le> 1 / 524288"
    and "\<bar>d - (v - 5922357 / 8388608)\<bar> \<le> 1 / 524288"
    and "\<bar>q - d / (14783277 / 8589934592)\<bar> \<le> 1 / 1024"
    and "\<bar>t - (27 - q)\<bar> \<le> 1 / 1024"
  shows "\<bar>t - celsius_exact x\<bar> \<le> 1 / 100"
proof -
  have q: "d / (14783277 / 8589934592) = d * (8589934592 / 14783277)" by simp
  have e: "celsius_exact x =
      27 - x * (33 / 10 / 4096 * (1000000 / 1721)) + 706 / 1000 * (1000000 / 1721)"
    unfolding celsius_exact_def by (simp add: field_simps)
  from assms have
    "v \<le> x * (13841203 / 17179869184) + 1 / 524288"
    "x * (13841203 / 17179869184) - 1 / 524288 \<le> v"
    "d \<le> v - 5922357 / 8388608 + 1 / 524288" "v - 5922357 / 8388608 - 1 / 524288 \<le> d"
    "q \<le> d * (8589934592 / 14783277) + 1 / 1024" "d * (8589934592 / 14783277) - 1 / 1024 \<le> q"
    "t \<le> 27 - q + 1 / 1024" "27 - q - 1 / 1024 \<le> t"
    unfolding q abs_le_iff by linarith+
  with assms(1,2) show ?thesis unfolding e abs_le_iff by linarith
qed


lemma uint_16_range:
  fixes raw :: "16 word"
  shows "0 \<le> rat_of_int (uint raw)" and "rat_of_int (uint raw) \<le> 65535"
proof -
  have "uint raw < 65536" using uint_bounded [of raw] by simp
  then have "uint raw \<le> 65535" by simp
  then have "rat_of_int (uint raw) \<le> rat_of_int 65535" by (simp only: of_int_le_iff)
  then show "rat_of_int (uint raw) \<le> 65535" by simp
  have "0 \<le> uint raw" by (rule uint_nonnegative)
  then show "0 \<le> rat_of_int (uint raw)" by (simp only: of_int_0_le_iff)
qed

lemma abs_leD:
  fixes a b e :: rat
  assumes "\<bar>a - b\<bar> \<le> e"
  shows "b - e \<le> a" and "a \<le> b + e"
  using assms by (simp_all add: abs_le_iff)

lemma convert_to_celsius_error:
  fixes raw :: "16 word"
  obtains t where "convert_to_celsius raw = Finite t"
    and "\<bar>t - celsius_exact (of_int (uint raw))\<bar> \<le> 1 / 100"
    and "\<bar>t\<bar> \<le> 30300"
proof -
  define x :: rat where "x = of_int (uint raw)"
  have x: "0 \<le> x" "x \<le> 65535" using uint_16_range [of raw] by (simp_all add: x_def)
  have p6: "pow2 6 = 64" and p15: "pow2 15 = 32768"
    and p19: "pow2 (6 - 25) = 1 / 524288" and p10: "pow2 (15 - 25) = 1 / 1024"
    by (simp_all add: pow2_def)
  have "\<bar>x * (13841203 / 17179869184)\<bar> < pow2 6"
    using x unfolding p6 abs_less_iff by linarith
  from round_f32_error [OF this] obtain v
    where v: "round_f32 (x * (13841203 / 17179869184)) = Finite v"
      "\<bar>v - x * (13841203 / 17179869184)\<bar> \<le> 1 / 524288"
    unfolding p19 by auto
  note v' = abs_leD [OF v(2)]
  have "\<bar>v - 5922357 / 8388608\<bar> < pow2 6"
    using x v' unfolding p6 abs_less_iff by linarith
  from round_f32_error [OF this] obtain d
    where d: "round_f32 (v - 5922357 / 8388608) = Finite d"
      "\<bar>d - (v - 5922357 / 8388608)\<bar> \<le> 1 / 524288"
    unfolding p19 by auto
  note d' = abs_leD [OF d(2)]
  have dq: "d / (14783277 / 8589934592) = d * (8589934592 / 14783277)" by simp
  have "\<bar>d / (14783277 / 8589934592)\<bar> < pow2 15"
    using x v' d' unfolding p15 dq abs_less_iff by linarith
  from round_f32_error [OF this] obtain q
    where q: "round_f32 (d / (14783277 / 8589934592)) = Finite q"
      "\<bar>q - d / (14783277 / 8589934592)\<bar> \<le> 1 / 1024"
    unfolding p10 by auto
  note q' = abs_leD [OF q(2), unfolded dq]
  have "\<bar>27 - q\<bar> < pow2 15"
    using x v' d' q' unfolding p15 abs_less_iff by linarith
  from round_f32_error [OF this] obtain t
    where t: "round_f32 (27 - q) = Finite t" "\<bar>t - (27 - q)\<bar> \<le> 1 / 1024"
    unfolding p10 by auto
  note t' = abs_leD [OF t(2)]
  have nz: "(14783277 / 8589934592 :: rat) \<noteq> 0" by simp
  have "convert_to_celsius raw = Finite t"
    by (simp only: convert_to_celsius_def Let_def conversion_factor_value f32_lit_27 f32_lit_706
      f32_lit_1721 int_to_f32_uint fmul_Finite fsub_Finite fdiv_Finite [OF nz]
      x_def [symmetric] v(1) d(1) q(1) t(1))
  moreover have "\<bar>t - celsius_exact x\<bar> \<le> 1 / 100"
    using x v(2) d(2) q(2) t(2) by (rule convert_arith_16)
  moreover have "\<bar>t\<bar> \<le> 30300"
    using x v' d' q' t' unfolding abs_le_iff by linarith
  ultimately show ?thesis using that by (simp add: x_def)
qed

section \<open>The averaging fold: accumulated rounding error\<close>

lemma sum_list_abs_le:
  fixes cs :: "rat list"
  assumes "\<forall>c\<in>set cs. \<bar>c\<bar> \<le> B"
  shows "\<bar>sum_list cs\<bar> \<le> of_nat (length cs) * B"
  using assms
proof (induction cs)
  case Nil
  then show ?case by simp
next
  case (Cons c cs)
  then have "\<bar>c\<bar> \<le> B" and "\<bar>sum_list cs\<bar> \<le> of_nat (length cs) * B" by simp_all
  then have "\<bar>c + sum_list cs\<bar> \<le> B + of_nat (length cs) * B" by linarith
  then show ?case by (simp add: algebra_simps)
qed

text \<open>
  The loop from index \<open>i\<close> on, started with an accumulator that is within \<open>i\<close> roundings of
  the exact sum of the first \<open>i\<close> converted samples. \<open>B\<close> bounds the converted samples and
  \<open>k\<close> is a binary exponent that no partial sum reaches.
\<close>

lemma sum_loop_error:
  fixes B :: rat
  assumes conv: "map convert_to_celsius buf = map Finite cs"
    and len: "length cs = NUM_SAMPLES"
    and B: "\<forall>c\<in>set cs. \<bar>c\<bar> \<le> B"
    and k: "- 125 \<le> k" "k \<le> 127"
    and room: "of_nat NUM_SAMPLES * (B + pow2 (k - 25)) < pow2 k"
    and i: "i \<le> NUM_SAMPLES"
    and acc: "\<bar>acc - sum_list (take i cs)\<bar> \<le> of_nat i * pow2 (k - 25)"
  shows "\<exists>s. sum_loop buf i (Finite acc) = Finite s
           \<and> \<bar>s - sum_list cs\<bar> \<le> of_nat NUM_SAMPLES * pow2 (k - 25)"
  using i acc
proof (induction "NUM_SAMPLES - i" arbitrary: i acc)
  case 0
  then have "i = NUM_SAMPLES" by simp
  with 0 len show ?case by (subst sum_loop.simps) simp
next
  case (Suc n)
  define \<delta> where "\<delta> = pow2 (k - 25)"
  have \<delta>: "0 < \<delta>" by (simp add: \<delta>_def pow2_pos)
  from Suc.hyps(2) have i: "i < NUM_SAMPLES" by simp
  with len have ilen: "i < length cs" by simp
  from conv have "length buf = length cs" by (metis length_map)
  with conv ilen have ci: "convert_to_celsius (buf ! i) = Finite (cs ! i)"
    by (metis nth_map)
  have B0: "0 \<le> B" using B ilen by (metis abs_ge_zero nth_mem order_trans)
  have Bi: "\<bar>cs ! i\<bar> \<le> B" using B ilen by simp
  have "\<forall>c\<in>set (take i cs). \<bar>c\<bar> \<le> B" using B by (meson in_set_takeD)
  from sum_list_abs_le [OF this] ilen
  have St: "\<bar>sum_list (take i cs)\<bar> \<le> of_nat i * B" by simp
  have "of_nat (Suc i) \<le> (of_nat NUM_SAMPLES :: rat)" using i by (simp only: of_nat_le_iff)
  then have "of_nat (Suc i) * (B + \<delta>) \<le> of_nat NUM_SAMPLES * (B + \<delta>)"
    using B0 \<delta> by (intro mult_right_mono) simp_all
  from this room have "of_nat (Suc i) * (B + \<delta>) < pow2 k"
    unfolding \<delta>_def by (rule le_less_trans)
  then have lim: "(of_nat i + 1) * (B + \<delta>) < pow2 k" by (simp add: add.commute)
  have "\<bar>acc + cs ! i\<bar> \<le> of_nat i * B + of_nat i * \<delta> + B"
    using Suc.prems(2) St Bi unfolding \<delta>_def [symmetric] by linarith
  also have "\<dots> \<le> (of_nat i + 1) * (B + \<delta>)" using \<delta> by (simp add: algebra_simps)
  finally have "\<bar>acc + cs ! i\<bar> < pow2 k" using lim by simp
  from round_f32_error [OF this k] obtain acc'
    where r: "round_f32 (acc + cs ! i) = Finite acc'" and e: "\<bar>acc' - (acc + cs ! i)\<bar> \<le> \<delta>"
    unfolding \<delta>_def by auto
  have tk: "sum_list (take (Suc i) cs) = sum_list (take i cs) + cs ! i"
    using ilen by (simp add: take_Suc_conv_app_nth)
  have "\<bar>acc' - sum_list (take (Suc i) cs)\<bar> \<le> of_nat i * \<delta> + \<delta>"
    using e Suc.prems(2) unfolding tk \<delta>_def [symmetric] by linarith
  then have acc': "\<bar>acc' - sum_list (take (Suc i) cs)\<bar> \<le> of_nat (Suc i) * pow2 (k - 25)"
    by (simp add: \<delta>_def algebra_simps)
  have n: "n = NUM_SAMPLES - Suc i" using Suc.hyps(2) by simp
  from i have "Suc i \<le> NUM_SAMPLES" by simp
  from Suc.hyps(1) [OF n this acc'] obtain s
    where s: "sum_loop buf (Suc i) (Finite acc') = Finite s"
      "\<bar>s - sum_list cs\<bar> \<le> of_nat NUM_SAMPLES * pow2 (k - 25)" by auto
  have "sum_loop buf i (Finite acc) = sum_loop buf (Suc i) (Finite acc')"
    using i by (subst sum_loop.simps) (simp add: ci r)
  with s show ?case by auto
qed

lemma int_to_f32_NUM_SAMPLES: "int_to_f32 (int NUM_SAMPLES) = Finite 100"
  by (simp add: NUM_SAMPLES_def int_to_f32_100)

lemma average_temperature_error:
  fixes B :: rat
  assumes conv: "map convert_to_celsius buf = map Finite cs"
    and len: "length cs = NUM_SAMPLES"
    and B: "\<forall>c\<in>set cs. \<bar>c\<bar> \<le> B"
    and k: "- 125 \<le> k" "k \<le> 127"
    and room: "of_nat NUM_SAMPLES * (B + pow2 (k - 25)) < pow2 k"
    and ka: "- 125 \<le> ka" "ka \<le> 127"
    and rooma: "B + pow2 (k - 25) < pow2 ka"
  shows "\<exists>a. average_temperature buf = Finite a
           \<and> \<bar>a - sum_list cs / 100\<bar> \<le> pow2 (k - 25) + pow2 (ka - 25)"
proof -
  define \<delta> where "\<delta> = pow2 (k - 25)"
  have "\<bar>0 - sum_list (take 0 cs)\<bar> \<le> of_nat 0 * pow2 (k - 25)" by simp
  from sum_loop_error [OF conv len B k room _ this] obtain s
    where s: "sum_loop buf 0 (Finite 0) = Finite s"
      and es: "\<bar>s - sum_list cs\<bar> \<le> 100 * \<delta>"
    by (auto simp: NUM_SAMPLES_def \<delta>_def)
  from sum_list_abs_le [OF B] len have "\<bar>sum_list cs\<bar> \<le> 100 * B"
    by (simp add: NUM_SAMPLES_def)
  with es have "\<bar>s\<bar> \<le> 100 * B + 100 * \<delta>" by linarith
  moreover have "\<bar>s / 100\<bar> = \<bar>s\<bar> / 100" by simp
  ultimately have "\<bar>s / 100\<bar> \<le> B + \<delta>" by linarith
  with rooma have "\<bar>s / 100\<bar> < pow2 ka" by (simp add: \<delta>_def)
  from round_f32_error [OF this ka] obtain a
    where a: "round_f32 (s / 100) = Finite a" and ea: "\<bar>a - s / 100\<bar> \<le> pow2 (ka - 25)"
    by auto
  have "average_temperature buf = Finite a"
    by (simp add: average_temperature_def f32_lit_def round_f32_zero s
        int_to_f32_NUM_SAMPLES a)
  moreover have "\<bar>s / 100 - sum_list cs / 100\<bar> = \<bar>s - sum_list cs\<bar> / 100"
    by (simp flip: diff_divide_distrib)
  with es have "\<bar>s / 100 - sum_list cs / 100\<bar> \<le> \<delta>" by linarith
  with ea have "\<bar>a - sum_list cs / 100\<bar> \<le> pow2 (k - 25) + pow2 (ka - 25)"
    unfolding \<delta>_def by linarith
  ultimately show ?thesis by blast
qed

text \<open>The converted samples of a buffer are finite numbers, with their range.\<close>

lemma converted_samples:
  fixes buf :: "16 word list"
  shows "\<exists>cs. map convert_to_celsius buf = map Finite cs
           \<and> (\<forall>c\<in>set cs. \<bar>c\<bar> \<le> 30300)
           \<and> ((\<forall>w\<in>set buf. w \<le> 4095) \<longrightarrow> (\<forall>c\<in>set cs. \<bar>c\<bar> \<le> 1481))"
proof (induction buf)
  case Nil
  then show ?case by simp
next
  case (Cons w buf)
  then obtain cs where cs: "map convert_to_celsius buf = map Finite cs"
    "\<forall>c\<in>set cs. \<bar>c\<bar> \<le> 30300"
    "(\<forall>w\<in>set buf. w \<le> 4095) \<longrightarrow> (\<forall>c\<in>set cs. \<bar>c\<bar> \<le> 1481)" by blast
  obtain t where t: "convert_to_celsius w = Finite t"
    "\<bar>t - celsius_exact (of_int (uint w))\<bar> \<le> 1 / 100" "\<bar>t\<bar> \<le> 30300"
    by (rule convert_to_celsius_error)
  have small: "\<bar>t\<bar> \<le> 1481" if "w \<le> 4095"
  proof -
    from that have "uint w \<le> 4095" by (simp add: word_le_def)
    then have "rat_of_int (uint w) \<le> rat_of_int 4095" by (simp only: of_int_le_iff)
    then have x: "rat_of_int (uint w) \<le> 4095" by simp
    have e: "celsius_exact x =
        27 - x * (33 / 10 / 4096 * (1000000 / 1721)) + 706 / 1000 * (1000000 / 1721)"
      for x unfolding celsius_exact_def by (simp add: field_simps)
    from abs_leD [OF t(2)] x uint_16_range(1) [of w] show ?thesis
      unfolding e abs_le_iff by linarith
  qed
  have "map convert_to_celsius (w # buf) = map Finite (t # cs)" using cs(1) t(1) by simp
  moreover have "\<forall>c\<in>set (t # cs). \<bar>c\<bar> \<le> 30300" using cs(2) t(3) by simp
  moreover have "(\<forall>w\<in>set (w # buf). w \<le> 4095) \<longrightarrow> (\<forall>c\<in>set (t # cs). \<bar>c\<bar> \<le> 1481)"
    using cs(3) small by simp
  ultimately show ?case by blast
qed

lemma average_temperature_bounds:
  assumes "length buf = NUM_SAMPLES"
  shows "\<exists>cs a. map convert_to_celsius buf = map Finite cs
           \<and> average_temperature buf = Finite a
           \<and> \<bar>a - sum_list cs / 100\<bar> \<le> 13 / 100
           \<and> ((\<forall>w\<in>set buf. w \<le> 4095) \<longrightarrow> \<bar>a - sum_list cs / 100\<bar> \<le> 1 / 100)"
proof -
  from converted_samples [of buf] obtain cs
    where cs: "map convert_to_celsius buf = map Finite cs"
      and B: "\<forall>c\<in>set cs. \<bar>c\<bar> \<le> 30300"
      and B12: "(\<forall>w\<in>set buf. w \<le> 4095) \<longrightarrow> (\<forall>c\<in>set cs. \<bar>c\<bar> \<le> 1481)" by blast
  from cs assms have len: "length cs = NUM_SAMPLES" by (metis length_map)
  have p: "pow2 22 = 4194304" "pow2 (22 - 25) = 1 / 8" "pow2 15 = 32768" "pow2 (15 - 25) = 1 / 1024"
    "pow2 18 = 262144" "pow2 (18 - 25) = 1 / 128" "pow2 11 = 2048" "pow2 (11 - 25) = 1 / 16384"
    by (simp_all add: pow2_def)
  have "\<exists>a. average_temperature buf = Finite a
      \<and> \<bar>a - sum_list cs / 100\<bar> \<le> pow2 (22 - 25) + pow2 (15 - 25)"
    by (rule average_temperature_error [OF cs len B]) (simp_all add: pow2_def NUM_SAMPLES_def)
  then obtain a where a: "average_temperature buf = Finite a"
    "\<bar>a - sum_list cs / 100\<bar> \<le> 13 / 100" unfolding p by auto
  have "\<bar>a - sum_list cs / 100\<bar> \<le> 1 / 100" if "\<forall>w\<in>set buf. w \<le> 4095"
  proof -
    from that B12 have B': "\<forall>c\<in>set cs. \<bar>c\<bar> \<le> 1481" by blast
    have "\<exists>a. average_temperature buf = Finite a
        \<and> \<bar>a - sum_list cs / 100\<bar> \<le> pow2 (18 - 25) + pow2 (11 - 25)"
      by (rule average_temperature_error [OF cs len B']) (simp_all add: pow2_def NUM_SAMPLES_def)
    with a(1) show ?thesis unfolding p by auto
  qed
  with cs a show ?thesis by blast
qed

text \<open>The exact mean of a non-empty list lies between its least and greatest element.\<close>

lemma sum_list_upper:
  fixes cs :: "rat list"
  assumes "\<forall>c\<in>set cs. c \<le> M"
  shows "sum_list cs \<le> of_nat (length cs) * M"
  using assms by (induction cs) (auto simp: algebra_simps intro: add_mono)

lemma sum_list_lower:
  fixes cs :: "rat list"
  assumes "\<forall>c\<in>set cs. m \<le> c"
  shows "of_nat (length cs) * m \<le> sum_list cs"
  using assms by (induction cs) (auto simp: algebra_simps intro: add_mono)

lemma mean_between:
  fixes cs :: "rat list"
  assumes "length cs = 100"
  shows "Min (set cs) \<le> sum_list cs / 100" and "sum_list cs / 100 \<le> Max (set cs)"
proof -
  from assms have ne: "set cs \<noteq> {}" by auto
  have "\<forall>c\<in>set cs. Min (set cs) \<le> c" and "\<forall>c\<in>set cs. c \<le> Max (set cs)"
    by simp_all
  from sum_list_lower [OF this(1)] sum_list_upper [OF this(2)] assms
  have "100 * Min (set cs) \<le> sum_list cs" and "sum_list cs \<le> 100 * Max (set cs)"
    by simp_all
  then show "Min (set cs) \<le> sum_list cs / 100" and "sum_list cs / 100 \<le> Max (set cs)"
    by simp_all
qed

lemma map_Finite_eq: "map Finite xs = map Finite ys \<Longrightarrow> xs = ys"
  by (simp add: inj_on_def inj_map_eq_map [unfolded inj_on_def])

lemma sum_list_alternating:
  fixes c1 c2 :: rat
  shows "sum_list (concat (replicate n [c1, c2])) = of_nat n * (c1 + c2)"
  by (induction n) (simp_all add: algebra_simps)

section \<open>The fold on a buffer of identical samples, evaluated\<close>

lemma sum_loop_replicate:
  "sum_loop (replicate NUM_SAMPLES w) i acc =
     ((\<lambda>a. fadd a (convert_to_celsius w)) ^^ (NUM_SAMPLES - i)) acc"
proof (induction "NUM_SAMPLES - i" arbitrary: i acc)
  case 0
  then show ?case by (subst sum_loop.simps) simp
next
  case (Suc n)
  then have i: "i < NUM_SAMPLES" and n: "n = NUM_SAMPLES - Suc i" by simp_all
  then have d: "NUM_SAMPLES - i = Suc (NUM_SAMPLES - Suc i)" by simp
  have "sum_loop (replicate NUM_SAMPLES w) i acc =
      sum_loop (replicate NUM_SAMPLES w) (Suc i) (fadd acc (convert_to_celsius w))"
    using i by (subst sum_loop.simps) simp
  also have "\<dots> = ((\<lambda>a. fadd a (convert_to_celsius w)) ^^ (NUM_SAMPLES - Suc i))
      (fadd acc (convert_to_celsius w))"
    by (rule Suc.hyps(1) [OF n])
  finally show ?case unfolding d by (simp only: funpow_Suc_right o_apply)
qed

lemma convert_to_celsius_2048: "convert_to_celsius 2048 = Finite (- 2136139 / 4096)"
  by code_simp

lemma convert_to_celsius_825: "convert_to_celsius 825 = Finite (6686433 / 131072)"
  by code_simp

lemma sum_2048:
  "((\<lambda>a. fadd a (Finite (- 2136139 / 4096))) ^^ 100) (Finite 0) = Finite (- 3337719 / 64)"
  by code_simp

lemma average_temperature_2048:
  "average_temperature (replicate 100 2048) = Finite (- 8544561 / 16384)"
proof -
  have "sum_loop (replicate 100 2048) 0 (Finite 0) = Finite (- 3337719 / 64)"
    using sum_loop_replicate [of 2048 0 "Finite 0"]
    by (simp only: NUM_SAMPLES_def convert_to_celsius_2048 sum_2048 diff_zero)
  moreover have "fdiv (Finite (- 3337719 / 64)) (Finite 100) = Finite (- 8544561 / 16384)"
    by code_simp
  ultimately show ?thesis
    by (simp only: average_temperature_def f32_lit_def round_f32_zero int_to_f32_NUM_SAMPLES)
qed

section \<open>The main loop: what no schedule changes\<close>

lemma main_step_adc_buffer: "adc_buffer (main_step s) = adc_buffer s"
  by (simp add: main_step_def emit_def split: pc.splits)

lemma exec_cfg: "cfg (exec a s) = cfg s"
  by (cases a)
    (simp_all add: main_step_def emit_def timer_tick_def alarm_callback_def wake_def
      dma_transfer_def split: pc.splits)

lemma exec_dma_chan: "dma_chan (exec a s) = dma_chan s"
  by (cases a)
    (simp_all add: main_step_def emit_def timer_tick_def alarm_callback_def wake_def
      dma_transfer_def split: pc.splits)

lemma exec_timer: "timer_armed (exec a s) = timer_armed s"
    "timer_delay_ms (exec a s) = timer_delay_ms s"
  by (cases a;
      simp add: main_step_def emit_def timer_tick_def alarm_callback_def wake_def
        dma_transfer_def split: pc.splits)+

lemma run_frame:
  "cfg (run as s) = cfg s" "dma_chan (run as s) = dma_chan s"
  "timer_armed (run as s) = timer_armed s" "timer_delay_ms (run as s) = timer_delay_ms s"
  by (induction as arbitrary: s; simp add: exec_cfg exec_dma_chan exec_timer)+

lemma run_invariant:
  assumes "P s" and "\<And>a s. P s \<Longrightarrow> P (exec a s)"
  shows "P (run as s)"
  using assms(1) by (induction as arbitrary: s) (simp_all add: assms(2))

section \<open>The order of the events of a cycle\<close>

lemma length_cycle_events: "length (cycle_events chan c avg) = 9 + NUM_SAMPLES"
  by (simp add: cycle_events_def)

lemma take_cycle_events_avg:
  assumes "n \<le> 7 + NUM_SAMPLES"
  shows "take n (cycle_events chan c avg) = take n (cycle_events chan c avg')"
proof -
  define front where "front =
    [Adc_fifo_drain, Adc_run False, Adc_fifo_setup True True 1 False False, Adc_run True,
      Dma_channel_configure chan c Addr_adc_buffer Addr_adc_hw_fifo NUM_SAMPLES True,
      Dma_channel_wait_for_finish_blocking chan, Adc_run False]
     @ map Read_adc_buffer [0..<NUM_SAMPLES]"
  have l: "length front = 7 + NUM_SAMPLES" by (simp add: front_def)
  have "cycle_events chan c a = front @ [Printf a, Display_temperature a]" for a
    by (simp add: cycle_events_def front_def)
  then show ?thesis using assms l by simp
qed

lemma cycle_events_read:
  "i < NUM_SAMPLES \<Longrightarrow> cycle_events chan c avg ! (7 + i) = Read_adc_buffer i"
  by (simp add: cycle_events_def nth_append)

lemma cycle_events_nth:
  "cycle_events chan c avg ! 0 = Adc_fifo_drain"
  "cycle_events chan c avg ! 1 = Adc_run False"
  "cycle_events chan c avg ! 2 = Adc_fifo_setup True True 1 False False"
  "cycle_events chan c avg ! 3 = Adc_run True"
  "cycle_events chan c avg ! 4 =
     Dma_channel_configure chan c Addr_adc_buffer Addr_adc_hw_fifo NUM_SAMPLES True"
  "cycle_events chan c avg ! 5 = Dma_channel_wait_for_finish_blocking chan"
  "cycle_events chan c avg ! 6 = Adc_run False"
  "cycle_events chan c avg ! (7 + NUM_SAMPLES) = Printf avg"
  "cycle_events chan c avg ! (8 + NUM_SAMPLES) = Display_temperature avg"
  by (simp_all add: cycle_events_def nth_append)

lemma take_step:
  assumes "t = pre @ take n xs" and "n < length xs" and "xs ! n = e"
  shows "t @ [e] = pre @ take (Suc n) xs"
  using assms by (simp add: take_Suc_conv_app_nth)

lemma trace_inv_init: "trace_inv (main_init chan c0)"
  unfolding trace_inv_def by (rule conjI, rule exI [of _ "[]"]) (simp_all add: main_init_def)

lemma trace_inv_emit:
  assumes "trace_inv s" and "cycle_position (pc s) (i_loc s) = n" and "n < 7"
    and "cycle_events (dma_chan s) (cfg s) (avg_temp s) ! n = e"
    and "cycle_position p (i_loc s) = Suc n" and "p \<noteq> At_for"
  shows "trace_inv ((emit e s)\<lparr>pc := p\<rparr>)"
proof -
  from assms(1) obtain avgs where t: "trace s =
      concat (map (cycle_events (dma_chan s) (cfg s)) avgs)
      @ take (cycle_position (pc s) (i_loc s)) (cycle_events (dma_chan s) (cfg s) (avg_temp s))"
    unfolding trace_inv_def by blast
  have "n < length (cycle_events (dma_chan s) (cfg s) (avg_temp s))"
    using assms(3) by (simp add: length_cycle_events)
  from take_step [OF t [unfolded assms(2)] this assms(4)] show ?thesis
    unfolding trace_inv_def using assms(5,6) by (auto simp: emit_def)
qed

section \<open>The claims\<close>

subsection \<open>The sample converter\<close>

text \<open>
  C8. \<^verbatim>\<open>convert_to_celsius\<close> has no failure mode: for every 16-bit input, inside or outside
  the nominal range 0 to 4095, it returns a finite number (no overflow to an infinity, no
  NaN, no division by zero); the result lies between -30300 and 30300. It is a function
  of its argument alone.
\<close>

theorem convert_to_celsius_total:
  fixes raw :: "16 word"
  shows "\<exists>t. convert_to_celsius raw = Finite t \<and> - 30300 \<le> t \<and> t \<le> 30300"
proof -
  obtain t where "convert_to_celsius raw = Finite t" and "\<bar>t\<bar> \<le> 30300"
    by (rule convert_to_celsius_error)
  then show ?thesis by (auto simp: abs_le_iff)
qed

text \<open>
  C1, as stated: the result equals the exact value of
  27.0 - ((r * (3.3 / 4096)) - 0.706) / 0.001721. It does not: at raw = 0 the exact value
  is 27 + 706000 / 1721, which no binary floating-point number equals.
\<close>

theorem convert_to_celsius_exact_counterexample:
  "convert_to_celsius 0 \<noteq> Finite (celsius_exact 0)"
  by code_simp

text \<open>
  C1, amended: the result is the formula evaluated in single precision, every constant
  and every operation rounded to the nearest binary32 value; for every 16-bit raw input
  it is a finite number within 1/100 of the exact value of the formula, and at raw = 0 it
  is 14327041 / 32768 = 437.226593...
\<close>

theorem convert_to_celsius_formula:
  fixes raw :: "16 word"
  shows "(\<exists>t. convert_to_celsius raw = Finite t
            \<and> \<bar>t - celsius_exact (of_int (uint raw))\<bar> \<le> 1 / 100)
       \<and> convert_to_celsius 0 = Finite (14327041 / 32768)"
proof -
  obtain t where "convert_to_celsius raw = Finite t"
    and "\<bar>t - celsius_exact (of_int (uint raw))\<bar> \<le> 1 / 100"
    by (rule convert_to_celsius_error)
  moreover have "convert_to_celsius 0 = Finite (14327041 / 32768)"
    by code_simp
  ultimately show ?thesis by blast
qed

text \<open>
  C6. \<^verbatim>\<open>convert_to_celsius\<close> is strictly decreasing: for raw values r1 < r2, the
  comparison convert(r2) < convert(r1) holds.
\<close>

theorem convert_to_celsius_decreasing:
  fixes r1 r2 :: "16 word"
  assumes "r1 < r2"
  shows "f32_less (convert_to_celsius r2) (convert_to_celsius r1)"
proof -
  obtain t1 where t1: "convert_to_celsius r1 = Finite t1"
    "\<bar>t1 - celsius_exact (of_int (uint r1))\<bar> \<le> 1 / 100"
    by (rule convert_to_celsius_error)
  obtain t2 where t2: "convert_to_celsius r2 = Finite t2"
    "\<bar>t2 - celsius_exact (of_int (uint r2))\<bar> \<le> 1 / 100"
    by (rule convert_to_celsius_error)
  from assms have "uint r1 + 1 \<le> uint r2" by (simp add: word_less_def)
  then have "rat_of_int (uint r1 + 1) \<le> rat_of_int (uint r2)" by (simp only: of_int_le_iff)
  then have x: "rat_of_int (uint r1) + 1 \<le> rat_of_int (uint r2)" by simp
  have e: "celsius_exact x = 27 - x * (33 / 10 / 4096 * (1000000 / 1721)) + 706 / 1000 * (1000000 / 1721)"
    for x unfolding celsius_exact_def by (simp add: field_simps)
  from abs_leD [OF t1(2)] abs_leD [OF t2(2)] x have "t2 < t1"
    unfolding e by linarith
  then show ?thesis by (simp add: t1(1) t2(1))
qed

theorem convert_to_celsius_decreasing_witness:
  "(0 :: 16 word) < 1 \<and> f32_less (convert_to_celsius 1) (convert_to_celsius 0)"
  using convert_to_celsius_decreasing [of 0 1] by simp

subsection \<open>The average of a cycle\<close>

text \<open>
  C2, as stated: the average of N identical samples r equals convert(r). It does not:
  for one hundred samples 2048 the hundred rounded additions and the rounded division
  give -521.51861..., while convert(2048) is -521.51831...
\<close>

theorem average_identical_counterexample:
  "average_temperature (replicate 100 2048) \<noteq> convert_to_celsius 2048"
  by (simp only: average_temperature_2048 convert_to_celsius_2048) simp

text \<open>
  C2, amended: for every contents of the 100-entry buffer the converted entries are
  finite and the average is a finite number within 0.13 of the exact mean of the
  converted entries (their sum divided by N), and within 0.01 of it when every entry is
  in the range 0 to 4095 of the ADC. That exact mean is convert(r) when all entries equal
  r, and (convert(r1) + convert(r2)) / 2 when the entries alternate between r1 and r2.
\<close>

theorem average_temperature_mean:
  assumes "length buf = NUM_SAMPLES"
  shows "\<exists>cs a. map convert_to_celsius buf = map Finite cs
           \<and> average_temperature buf = Finite a
           \<and> \<bar>a - sum_list cs / 100\<bar> \<le> 13 / 100
           \<and> ((\<forall>w\<in>set buf. w \<le> 4095) \<longrightarrow> \<bar>a - sum_list cs / 100\<bar> \<le> 1 / 100)
           \<and> (\<forall>r c. buf = replicate NUM_SAMPLES r \<longrightarrow> convert_to_celsius r = Finite c
                 \<longrightarrow> sum_list cs / 100 = c)
           \<and> (\<forall>r1 r2 c1 c2. buf = concat (replicate (NUM_SAMPLES div 2) [r1, r2])
                 \<longrightarrow> convert_to_celsius r1 = Finite c1 \<longrightarrow> convert_to_celsius r2 = Finite c2
                 \<longrightarrow> sum_list cs / 100 = (c1 + c2) / 2)"
proof -
  from average_temperature_bounds [OF assms] obtain cs a
    where cs: "map convert_to_celsius buf = map Finite cs"
      and a: "average_temperature buf = Finite a" "\<bar>a - sum_list cs / 100\<bar> \<le> 13 / 100"
        "(\<forall>w\<in>set buf. w \<le> 4095) \<longrightarrow> \<bar>a - sum_list cs / 100\<bar> \<le> 1 / 100"
    by blast
  have same: "sum_list cs / 100 = c"
    if "buf = replicate NUM_SAMPLES r" "convert_to_celsius r = Finite c" for r c
  proof -
    from that cs have "map Finite cs = map Finite (replicate NUM_SAMPLES c)" by simp
    then have "cs = replicate NUM_SAMPLES c" by (rule map_Finite_eq)
    then show ?thesis by (simp add: NUM_SAMPLES_def sum_list_replicate)
  qed
  have alt: "sum_list cs / 100 = (c1 + c2) / 2"
    if "buf = concat (replicate (NUM_SAMPLES div 2) [r1, r2])"
      "convert_to_celsius r1 = Finite c1" "convert_to_celsius r2 = Finite c2" for r1 r2 c1 c2
  proof -
    from that cs have "map Finite cs = map Finite (concat (replicate (NUM_SAMPLES div 2) [c1, c2]))"
      by (simp add: map_concat)
    then have "cs = concat (replicate (NUM_SAMPLES div 2) [c1, c2])" by (rule map_Finite_eq)
    then show ?thesis by (simp add: NUM_SAMPLES_def sum_list_alternating)
  qed
  from cs a same alt show ?thesis by blast
qed

theorem average_temperature_mean_witness:
  "\<exists>cs a. map convert_to_celsius (replicate 100 (2048 :: 16 word)) = map Finite cs
     \<and> average_temperature (replicate 100 2048) = Finite a
     \<and> \<bar>a - sum_list cs / 100\<bar> \<le> 1 / 100
     \<and> sum_list cs / 100 = - 2136139 / 4096"
proof -
  have "length (replicate 100 (2048 :: 16 word)) = NUM_SAMPLES" by (simp add: NUM_SAMPLES_def)
  from average_temperature_mean [OF this] obtain cs a
    where "map convert_to_celsius (replicate 100 (2048 :: 16 word)) = map Finite cs"
      "average_temperature (replicate 100 2048) = Finite a"
      "(\<forall>w\<in>set (replicate 100 (2048 :: 16 word)). w \<le> 4095) \<longrightarrow> \<bar>a - sum_list cs / 100\<bar> \<le> 1 / 100"
      "\<forall>r c. replicate 100 (2048 :: 16 word) = replicate NUM_SAMPLES r
          \<longrightarrow> convert_to_celsius r = Finite c \<longrightarrow> sum_list cs / 100 = c"
    by blast
  moreover have "replicate 100 (2048 :: 16 word) = replicate NUM_SAMPLES 2048"
    by (simp add: NUM_SAMPLES_def)
  ultimately show ?thesis using convert_to_celsius_2048 by (intro exI [of _ cs] exI [of _ a]) simp
qed

text \<open>
  C7, as stated: one hundred samples 2048 average to about -522.9, and raw = 825
  converts to about 27.9. Neither holds: the average is off -522.9 by more than 1.3, and
  convert(825) is off 27.9 by more than 23.
\<close>

theorem scenario_counterexample:
  "average_temperature (replicate 100 2048) = Finite (- 8544561 / 16384)
   \<and> 13 / 10 < \<bar>- 8544561 / 16384 - (- 5229 / 10 :: rat)\<bar>
   \<and> convert_to_celsius 825 = Finite (6686433 / 131072)
   \<and> 23 < \<bar>6686433 / 131072 - (279 / 10 :: rat)\<bar>"
  by (simp add: average_temperature_2048 convert_to_celsius_825)

text \<open>
  C7, amended: one hundred samples 2048 (voltage 13841203 / 8388608 = 1.6499999...)
  average to -8544561 / 16384 = -521.5186..., within 0.001 of
  27.0 - (1.65 - 0.706) / 0.001721 = -521.5183...; raw = 825 gives the voltage
  0.66467..., within 0.0002 of 0.6648, and the temperature 6686433 / 131072 = 51.0134...,
  within 0.001 of the exact value of the formula.
\<close>

theorem scenario_values:
  "average_temperature (replicate 100 2048) = Finite (- 8544561 / 16384)
   \<and> \<bar>- 8544561 / 16384 - (27 - (165 / 100 - 706 / 1000) / (1721 / 1000000) :: rat)\<bar> \<le> 1 / 1000
   \<and> fmul (int_to_f32 (uint (2048 :: 16 word))) conversion_factor = Finite (13841203 / 8388608)
   \<and> fmul (int_to_f32 (uint (825 :: 16 word))) conversion_factor = Finite (5445 / 8192)
   \<and> \<bar>5445 / 8192 - (6648 / 10000 :: rat)\<bar> \<le> 2 / 10000
   \<and> convert_to_celsius 825 = Finite (6686433 / 131072)
   \<and> \<bar>6686433 / 131072 - celsius_exact 825\<bar> \<le> 1 / 1000"
proof -
  have "fmul (int_to_f32 (uint (2048 :: 16 word))) conversion_factor = Finite (13841203 / 8388608)"
    by code_simp
  moreover
  have "fmul (int_to_f32 (uint (825 :: 16 word))) conversion_factor = Finite (5445 / 8192)"
    by code_simp
  ultimately show ?thesis
    by (simp add: average_temperature_2048 convert_to_celsius_825 celsius_exact_def)
qed

end
